theory Spec2Isabelle
  imports Main "HOL-Library.Word"
begin

section \<open>The DHT contact store and token manager of lbry.go\<close>

text \<open>
  A shallow embedding of \<^verbatim>\<open>dht/store.go\<close> and \<^verbatim>\<open>dht/token_manager.go\<close>.
  Go maps are partial functions, structs are records, a panic is the left injection of
  a sum. What the Go runtime chooses (the clock reading, the order in which
  \<^verbatim>\<open>range\<close> visits a map, the bytes \<^verbatim>\<open>crypto/rand\<close> delivers) is an
  argument of the function that consumes it.
\<close>

subsection \<open>Basic types\<close>

type_synonym byte = "8 word"

text \<open>
  Modelled from the spec: the type \<^verbatim>\<open>bits.Bitmap\<close> is declared in the package
  \<^verbatim>\<open>dht/bits\<close>. The spec gives it as a 48-byte (384-bit) unsigned integer whose
  bit 0 is the highest bit; the byte array is read big-endian.
\<close>

type_synonym Bitmap = "384 word"

text \<open>
  Modelled from the spec: the struct \<^verbatim>\<open>Contact\<close> is declared in
  \<^verbatim>\<open>dht/contact.go\<close>. The spec gives it as an id, a 4-byte IPv4 address and a
  16-bit port. The store reads the field \<^verbatim>\<open>ID\<close> only.
\<close>

record Contact =
  ID :: Bitmap
  ip :: "byte list"
  port :: "16 word"

text \<open>
  A \<^verbatim>\<open>time.Time\<close> is a reading of the monotonic clock in nanoseconds, a
  \<^verbatim>\<open>time.Duration\<close> a signed 64-bit count of nanoseconds.
  \<^verbatim>\<open>time.Since(t)\<close> is \<^verbatim>\<open>time.Now().Sub(t)\<close>, which saturates at the
  ends of the 64-bit range. The clock is an argument: a call of a store method is one
  instant \<open>now\<close>, which stands for every reading the call takes (\<^verbatim>\<open>Upsert\<close> takes
  one, the loops of \<^verbatim>\<open>Get\<close> and \<^verbatim>\<open>RemoveExpiredContacts\<close> one at each
  entry).
\<close>

type_synonym Time = int
type_synonym Duration = int

definition maxDuration :: Duration where
  "maxDuration = 2 ^ 63 - 1"

definition minDuration :: Duration where
  "minDuration = - (2 ^ 63)"

definition Since :: "Time \<Rightarrow> Time \<Rightarrow> Duration" where
  "Since now t = max minDuration (min maxDuration (now - t))"

datatype panic = Panic string | NilDereference | RandError

subsection \<open>The contact store (store.go)\<close>

record contactStore =
  hashes :: "Bitmap \<rightharpoonup> (Bitmap \<rightharpoonup> Time)"
  contacts :: "Bitmap \<rightharpoonup> Contact"

definition newStore :: contactStore where
  "newStore = \<lparr>hashes = Map.empty, contacts = Map.empty\<rparr>"

text \<open>
  \<^verbatim>\<open>Upsert\<close>: create the inner map when the hash is new, store the clock reading
  under the contact's id, store the contact under its id.
\<close>

definition Upsert :: "Time \<Rightarrow> Bitmap \<Rightarrow> Contact \<Rightarrow> contactStore \<Rightarrow> contactStore" where
  "Upsert now blobHash contact s =
     (let nodes = (case hashes s blobHash of None \<Rightarrow> Map.empty | Some m \<Rightarrow> m)
      in s\<lparr>hashes := (hashes s)(blobHash \<mapsto> nodes(ID contact \<mapsto> now)),
            contacts := (contacts s)(ID contact \<mapsto> contact)\<rparr>)"

text \<open>
  The loop of \<^verbatim>\<open>Get\<close> over the ids of one hash. \<^verbatim>\<open>range\<close> visits every key
  of the map once, in an order the runtime chooses: the list \<open>order\<close>. A key that is
  not in the map is not produced. The result slice grows by \<^verbatim>\<open>append\<close>.
\<close>

fun Get_range ::
  "Duration \<Rightarrow> Time \<Rightarrow> (Bitmap \<rightharpoonup> Time) \<Rightarrow> (Bitmap \<rightharpoonup> Contact) \<Rightarrow> Bitmap list \<Rightarrow>
   Contact list \<Rightarrow> panic + Contact list" where
  "Get_range tExpire now ids cs [] acc = Inr acc"
| "Get_range tExpire now ids cs (nid # rest) acc =
     (case ids nid of
        None \<Rightarrow> Get_range tExpire now ids cs rest acc
      | Some ts \<Rightarrow>
          if Since now ts < tExpire then
            (case cs nid of
               None \<Rightarrow> Inl (Panic ''node id in IDs list, but not in nodeInfo'')
             | Some contact \<Rightarrow> Get_range tExpire now ids cs rest (acc @ [contact]))
          else Get_range tExpire now ids cs rest acc)"

text \<open>
  \<^verbatim>\<open>tExpire\<close> is a package-level value declared outside the files at hand (its
  declaration in \<^verbatim>\<open>config.go\<close> is commented out): it is a parameter.
\<close>

definition Get ::
  "Duration \<Rightarrow> Time \<Rightarrow> Bitmap list \<Rightarrow> Bitmap \<Rightarrow> contactStore \<Rightarrow> panic + Contact list" where
  "Get tExpire now order blobHash s =
     (case hashes s blobHash of
        None \<Rightarrow> Inr []
      | Some ids \<Rightarrow> Get_range tExpire now ids (contacts s) order [])"

text \<open>
  \<^verbatim>\<open>RemoveExpiredContacts\<close>: the inner loop over one hash's ids deletes the entry
  it stands on when that entry is older than \<^verbatim>\<open>tExpire\<close>; the outer loop visits
  every hash. The inner maps are reference values, so a deletion shows in
  \<^verbatim>\<open>s.hashes\<close>; in the model the outer loop stores the inner map back.
\<close>

fun RemoveExpiredContacts_nodes ::
  "Duration \<Rightarrow> Time \<Rightarrow> Bitmap list \<Rightarrow> (Bitmap \<rightharpoonup> Time) \<Rightarrow> (Bitmap \<rightharpoonup> Time)" where
  "RemoveExpiredContacts_nodes tExpire now [] nodes = nodes"
| "RemoveExpiredContacts_nodes tExpire now (nid # rest) nodes =
     (case nodes nid of
        None \<Rightarrow> RemoveExpiredContacts_nodes tExpire now rest nodes
      | Some ts \<Rightarrow>
          RemoveExpiredContacts_nodes tExpire now rest
            (if Since now ts > tExpire then nodes(nid := None) else nodes))"

fun RemoveExpiredContacts_hashes ::
  "Duration \<Rightarrow> Time \<Rightarrow> (Bitmap \<Rightarrow> Bitmap list) \<Rightarrow> Bitmap list \<Rightarrow>
   (Bitmap \<rightharpoonup> (Bitmap \<rightharpoonup> Time)) \<Rightarrow> (Bitmap \<rightharpoonup> (Bitmap \<rightharpoonup> Time))" where
  "RemoveExpiredContacts_hashes tExpire now inner [] hs = hs"
| "RemoveExpiredContacts_hashes tExpire now inner (h # rest) hs =
     (case hs h of
        None \<Rightarrow> RemoveExpiredContacts_hashes tExpire now inner rest hs
      | Some nodes \<Rightarrow>
          RemoveExpiredContacts_hashes tExpire now inner rest
            (hs(h \<mapsto> RemoveExpiredContacts_nodes tExpire now (inner h) nodes)))"

text \<open>
  \<open>outer\<close> is the order in which the hashes are visited, \<open>inner h\<close> the order in which
  the ids of hash \<open>h\<close> are.
\<close>

definition RemoveExpiredContacts ::
  "Duration \<Rightarrow> Time \<Rightarrow> Bitmap list \<Rightarrow> (Bitmap \<Rightarrow> Bitmap list) \<Rightarrow> contactStore \<Rightarrow> contactStore" where
  "RemoveExpiredContacts tExpire now outer inner s =
     s\<lparr>hashes := RemoveExpiredContacts_hashes tExpire now inner outer (hashes s)\<rparr>"

definition CountStoredHashes :: "contactStore \<Rightarrow> int" where
  "CountStoredHashes s = int (card (dom (hashes s)))"

text \<open>
  The stores that a sequence of calls builds from \<^verbatim>\<open>newStore()\<close>. \<^verbatim>\<open>Get\<close> and
  \<^verbatim>\<open>CountStoredHashes\<close> assign to nothing, so they leave the store as it is and
  need no rule.
\<close>

inductive reachable :: "Duration \<Rightarrow> contactStore \<Rightarrow> bool" for tExpire :: Duration where
  reach_new: "reachable tExpire newStore"
| reach_Upsert: "reachable tExpire s \<Longrightarrow> reachable tExpire (Upsert now blobHash contact s)"
| reach_Remove:
    "reachable tExpire s \<Longrightarrow> reachable tExpire (RemoveExpiredContacts tExpire now outer inner s)"

text \<open>A list enumerates a map's keys when it holds each of them once and nothing else.\<close>

definition enumerates :: "'k list \<Rightarrow> ('k \<rightharpoonup> 'v) \<Rightarrow> bool" where
  "enumerates order m \<longleftrightarrow> distinct order \<and> set order = dom m"

definition keys_in_order :: "Bitmap list \<Rightarrow> contactStore \<Rightarrow> Bitmap \<Rightarrow> bool" where
  "keys_in_order order s h =
     (case hashes s h of None \<Rightarrow> True | Some ids \<Rightarrow> enumerates order ids)"

text \<open>The timestamp the store holds for a hash and a contact id, if any.\<close>

definition entry :: "contactStore \<Rightarrow> Bitmap \<Rightarrow> Bitmap \<Rightarrow> Time option" where
  "entry s h nid = (case hashes s h of None \<Rightarrow> None | Some nodes \<Rightarrow> nodes nid)"

text \<open>
  What holds of every store the methods build: an id with a timestamp has a contact, and
  a contact is stored under its own id.
\<close>

definition store_inv :: "contactStore \<Rightarrow> bool" where
  "store_inv s \<longleftrightarrow>
     (\<forall>h nid ts. entry s h nid = Some ts \<longrightarrow> contacts s nid \<noteq> None) \<and>
     (\<forall>nid c. contacts s nid = Some c \<longrightarrow> ID c = nid)"

subsection \<open>Histories of calls\<close>

text \<open>
  A history is the list of the mutating calls made on a store since \<^verbatim>\<open>newStore()\<close>,
  oldest first, each with the clock reading it took. \<open>lastUpsert\<close> and
  \<open>lastContact\<close> read the history alone: the time of the latest \<^verbatim>\<open>Upsert\<close> of
  a contact id under a hash, and the latest contact upserted with an id (under any hash).
\<close>

datatype call =
  CallUpsert Time Bitmap Contact
| CallRemoveExpiredContacts Time "Bitmap list" "Bitmap \<Rightarrow> Bitmap list"

fun call_time :: "call \<Rightarrow> Time" where
  "call_time (CallUpsert now blobHash contact) = now"
| "call_time (CallRemoveExpiredContacts now outer inner) = now"

fun apply_call :: "Duration \<Rightarrow> contactStore \<Rightarrow> call \<Rightarrow> contactStore" where
  "apply_call tExpire s (CallUpsert now blobHash contact) = Upsert now blobHash contact s"
| "apply_call tExpire s (CallRemoveExpiredContacts now outer inner) =
     RemoveExpiredContacts tExpire now outer inner s"

definition run :: "Duration \<Rightarrow> call list \<Rightarrow> contactStore" where
  "run tExpire calls = foldl (apply_call tExpire) newStore calls"

fun lastUpsert_step :: "Bitmap \<Rightarrow> Bitmap \<Rightarrow> Time option \<Rightarrow> call \<Rightarrow> Time option" where
  "lastUpsert_step h nid acc (CallUpsert now blobHash contact) =
     (if blobHash = h \<and> ID contact = nid then Some now else acc)"
| "lastUpsert_step h nid acc (CallRemoveExpiredContacts now outer inner) = acc"

definition lastUpsert :: "call list \<Rightarrow> Bitmap \<Rightarrow> Bitmap \<Rightarrow> Time option" where
  "lastUpsert calls h nid = foldl (lastUpsert_step h nid) None calls"

fun lastContact_step :: "Bitmap \<Rightarrow> Contact option \<Rightarrow> call \<Rightarrow> Contact option" where
  "lastContact_step nid acc (CallUpsert now blobHash contact) =
     (if ID contact = nid then Some contact else acc)"
| "lastContact_step nid acc (CallRemoveExpiredContacts now outer inner) = acc"

definition lastContact :: "call list \<Rightarrow> Bitmap \<Rightarrow> Contact option" where
  "lastContact calls nid = foldl (lastContact_step nid) None calls"

subsection \<open>The store's lock\<close>

text \<open>
  \<^verbatim>\<open>sync.RWMutex\<close> admits any number of readers or one writer. \<open>RLock\<close> and
  \<open>Lock\<close> give the mutex after the call, or \<open>None\<close> when the caller has to wait.
  \<open>acquire\<close> is the first statement of each method of the store.
\<close>

record RWMutex =
  readers :: nat
  writer :: bool

definition RLock :: "RWMutex \<Rightarrow> RWMutex option" where
  "RLock m = (if writer m then None else Some (m\<lparr>readers := readers m + 1\<rparr>))"

definition Lock :: "RWMutex \<Rightarrow> RWMutex option" where
  "Lock m = (if writer m \<or> 0 < readers m then None else Some (m\<lparr>writer := True\<rparr>))"

datatype storeMethod = MUpsert | MGet | MRemoveExpiredContacts | MCountStoredHashes

fun acquire :: "storeMethod \<Rightarrow> RWMutex \<Rightarrow> RWMutex option" where
  "acquire MUpsert m = Lock m"
| "acquire MGet m = RLock m"
| "acquire MRemoveExpiredContacts m = RLock m"
| "acquire MCountStoredHashes m = RLock m"

subsection \<open>The token manager (token_manager.go)\<close>

text \<open>
  \<^verbatim>\<open>net.UDPAddr\<close> and the message \<^verbatim>\<open>Tokens\<close>. The methods take a pointer to
  the address: \<open>None\<close> is the nil pointer, which \<^verbatim>\<open>genToken\<close> dereferences.
\<close>

record UDPAddr =
  IP :: "byte list"
  Port :: int
  Zone :: string

record Tokens =
  Secret :: "byte list"
  PrevSecret :: "byte list"

text \<open>
  The fields of \<^verbatim>\<open>tokenManager\<close>: the two byte slices, the pointer to the lock
  (\<open>None\<close> until \<^verbatim>\<open>Start\<close> sets it), the stop group (its counter, once it is
  made) and the channel for updates (\<open>None\<close> when nil, else the messages sent on it).
\<close>

record tokenManager =
  secret :: "byte list"
  prevSecret :: "byte list"
  lock :: "RWMutex option"
  stop :: "nat option"
  tokenUpdateCh :: "Tokens list option"

text \<open>The \<open>n\<close> low bytes of a word, highest first: a byte array as a slice.\<close>

definition word_bytes :: "nat \<Rightarrow> 'a::len word \<Rightarrow> byte list" where
  "word_bytes n w = map (\<lambda>i. ucast (drop_bit (8 * (n - 1 - i)) w)) [0..<n]"

text \<open>\<^verbatim>\<open>strconv.Itoa\<close>: the decimal digits in ASCII, after a minus sign if negative.\<close>

fun digits10 :: "nat \<Rightarrow> byte list" where
  "digits10 n =
     (if n < 10 then [of_nat (48 + n)] else digits10 (n div 10) @ [of_nat (48 + n mod 10)])"

definition Itoa :: "int \<Rightarrow> byte list" where
  "Itoa i = (if i < 0 then 45 # digits10 (nat (- i)) else digits10 (nat i))"

text \<open>
  The builtin \<^verbatim>\<open>copy(dst, src)\<close> overwrites the first
  \<^verbatim>\<open>min(len(dst), len(src))\<close> bytes of \<open>dst\<close>.
\<close>

definition copy_bytes :: "byte list \<Rightarrow> byte list \<Rightarrow> byte list" where
  "copy_bytes dst src = take (length dst) src @ drop (length src) dst"

text \<open>
  \<^verbatim>\<open>genToken\<close>. \<^verbatim>\<open>sha256.Sum256\<close> belongs to Go's standard library: it is the
  parameter \<open>Sum256\<close>, from byte strings to arrays of 32 bytes. The result is the array
  as a string.
\<close>

definition genToken ::
  "(byte list \<Rightarrow> 256 word) \<Rightarrow> byte list \<Rightarrow> Bitmap \<Rightarrow> UDPAddr option \<Rightarrow> panic + byte list" where
  "genToken Sum256 sec nodeID addr =
     (case addr of
        None \<Rightarrow> Inl NilDereference
      | Some a \<Rightarrow>
          Inr (word_bytes 32 (Sum256 (word_bytes 48 nodeID @ IP a @ Itoa (Port a) @ sec))))"

definition Get_tokenManager ::
  "(byte list \<Rightarrow> 256 word) \<Rightarrow> tokenManager \<Rightarrow> Bitmap \<Rightarrow> UDPAddr option \<Rightarrow> panic + byte list" where
  "Get_tokenManager Sum256 tm nodeID addr = genToken Sum256 (secret tm) nodeID addr"

text \<open>\<^verbatim>\<open>Verify\<close>: the second comparison is made only when the first fails.\<close>

definition Verify ::
  "(byte list \<Rightarrow> 256 word) \<Rightarrow> tokenManager \<Rightarrow> byte list \<Rightarrow> Bitmap \<Rightarrow> UDPAddr option \<Rightarrow>
   panic + bool" where
  "Verify Sum256 tm token nodeID addr =
     (case genToken Sum256 (secret tm) nodeID addr of
        Inl p \<Rightarrow> Inl p
      | Inr cur \<Rightarrow>
          if token = cur then Inr True
          else (case genToken Sum256 (prevSecret tm) nodeID addr of
                  Inl p \<Rightarrow> Inl p
                | Inr prev \<Rightarrow> Inr (token = prev)))"

text \<open>
  \<^verbatim>\<open>rotateSecret\<close>. The argument \<open>rnd\<close> is what \<^verbatim>\<open>rand.Read\<close> does: \<open>None\<close>
  when it returns an error, else the bytes it delivers, of which the call takes as many
  as the slice \<^verbatim>\<open>tm.secret\<close> is long. Taking the lock of a manager that was not
  started dereferences nil. A send on the channel for updates is taken to complete.
\<close>

definition rotateSecret :: "tokenManager \<Rightarrow> (nat \<Rightarrow> byte) option \<Rightarrow> panic + tokenManager" where
  "rotateSecret tm rnd =
     (case lock tm of
        None \<Rightarrow> Inl NilDereference
      | Some m \<Rightarrow>
          (let prev = copy_bytes (prevSecret tm) (secret tm) in
           case rnd of
             None \<Rightarrow> Inl RandError
           | Some f \<Rightarrow>
               (let sec = map f [0..<length (secret tm)];
                    tm' = tm\<lparr>secret := sec, prevSecret := prev\<rparr>
                in Inr (case tokenUpdateCh tm of
                          None \<Rightarrow> tm'
                        | Some sent \<Rightarrow>
                            tm'\<lparr>tokenUpdateCh :=
                                  Some (sent @ [\<lparr>Secret = sec, PrevSecret = prev\<rparr>])\<rparr>))))"

text \<open>
  \<^verbatim>\<open>Start\<close>, up to the point where it returns. The goroutine it leaves behind calls
  \<^verbatim>\<open>rotateSecret\<close> at every tick: \<open>ticks\<close>, one random outcome per tick.
\<close>

definition Start :: "tokenManager \<Rightarrow> (nat \<Rightarrow> byte) option \<Rightarrow> panic + tokenManager" where
  "Start tm rnd =
     (let tm1 = tm\<lparr>lock := Some \<lparr>readers = 0, writer = False\<rparr>, stop := Some 0\<rparr>;
          seeded = (if length (secret tm1) \<noteq> 64
                    then rotateSecret (tm1\<lparr>secret := replicate 64 0,
                                           prevSecret := replicate 64 0\<rparr>) rnd
                    else Inr tm1)
      in case seeded of
           Inl p \<Rightarrow> Inl p
         | Inr tm2 \<Rightarrow> Inr (tm2\<lparr>stop := Some 1\<rparr>))"

fun ticks :: "tokenManager \<Rightarrow> (nat \<Rightarrow> byte) option list \<Rightarrow> panic + tokenManager" where
  "ticks tm [] = Inr tm"
| "ticks tm (rnd # rest) =
     (case rotateSecret tm rnd of Inl p \<Rightarrow> Inl p | Inr tm' \<Rightarrow> ticks tm' rest)"

text \<open>The number that a string of ASCII decimal digits writes.\<close>

definition decimal_value :: "byte list \<Rightarrow> nat" where
  "decimal_value ds = foldl (\<lambda>acc d. 10 * acc + (unat d - 48)) 0 ds"

subsection \<open>Values for the examples\<close>

definition contactA :: Contact where
  "contactA = \<lparr>ID = 2, ip = [127, 0, 0, 1], port = 3333\<rparr>"

definition contactA' :: Contact where
  "contactA' = \<lparr>ID = 2, ip = [10, 0, 0, 7], port = 4444\<rparr>"

definition contactB :: Contact where
  "contactB = \<lparr>ID = 3, ip = [192, 168, 0, 9], port = 3333\<rparr>"

text \<open>The zero value of \<^verbatim>\<open>tokenManager\<close>, and a manager as \<^verbatim>\<open>Start\<close> leaves it.\<close>

definition tm0 :: tokenManager where
  "tm0 = \<lparr>secret = [], prevSecret = [], lock = None, stop = None, tokenUpdateCh = None\<rparr>"

definition rndA :: "nat \<Rightarrow> byte" where
  "rndA i = of_nat (i + 1)"



definition tmA :: tokenManager where
  "tmA = \<lparr>secret = map rndA [0..<64], prevSecret = replicate 64 0,
           lock = Some \<lparr>readers = 0, writer = False\<rparr>, stop = Some 1, tokenUpdateCh = None\<rparr>"







section \<open>Properties\<close>

subsection \<open>The clock and the loops of the store\<close>

lemma Since_mono: "a \<le> b \<Longrightarrow> Since a t \<le> Since b t"
  by (simp add: Since_def min_def max_def)

lemma Since_self: "Since t t = 0"
  by (simp add: Since_def minDuration_def maxDuration_def)

lemma nodes_lookup:
  "RemoveExpiredContacts_nodes tE now order nodes nid =
     (case nodes nid of None \<Rightarrow> None
      | Some ts \<Rightarrow> if nid \<in> set order \<and> Since now ts > tE then None else Some ts)"
proof (induction order arbitrary: nodes)
  case Nil
  then show ?case by (simp split: option.splits)
next
  case (Cons a order)
  then show ?case by (auto split: option.splits)
qed

lemma nodes_idem:
  "RemoveExpiredContacts_nodes tE now order (RemoveExpiredContacts_nodes tE now order nodes)
     = RemoveExpiredContacts_nodes tE now order nodes"
  by (rule ext) (simp add: nodes_lookup split: option.splits)

lemma hashes_lookup:
  "RemoveExpiredContacts_hashes tE now inner outer hs h =
     (case hs h of None \<Rightarrow> None
      | Some nodes \<Rightarrow> if h \<in> set outer
          then Some (RemoveExpiredContacts_nodes tE now (inner h) nodes) else Some nodes)"
proof (induction outer arbitrary: hs)
  case Nil
  then show ?case by (simp split: option.splits)
next
  case (Cons a outer)
  then show ?case by (auto simp: nodes_idem split: option.splits)
qed

lemma Get_range_Inr:
  assumes "\<And>nid ts. ids nid = Some ts \<Longrightarrow> cs nid \<noteq> None"
  shows "Get_range tE now ids cs order acc =
     Inr (acc @ map (\<lambda>nid. the (cs nid))
        (filter (\<lambda>nid. case ids nid of None \<Rightarrow> False | Some ts \<Rightarrow> Since now ts < tE) order))"
  using assms
proof (induction order arbitrary: acc)
  case Nil
  then show ?case by simp
next
  case (Cons a order)
  then show ?case by (fastforce split: option.splits)
qed

lemma Since_antimono: "a \<le> b \<Longrightarrow> Since now b \<le> Since now a"
  by (simp add: Since_def min_def max_def)

lemma dom_RemoveExpiredContacts_hashes:
  "dom (RemoveExpiredContacts_hashes tE now inner outer hs) = dom hs"
  by (auto simp: dom_def hashes_lookup split: option.splits)

subsection \<open>Histories and the invariant\<close>

lemma run_snoc: "run tE (calls @ [c]) = apply_call tE (run tE calls) c"
  by (simp add: run_def)

lemma lastUpsert_snoc: "lastUpsert (calls @ [c]) h nid = lastUpsert_step h nid (lastUpsert calls h nid) c"
  by (simp add: lastUpsert_def)

lemma lastContact_snoc: "lastContact (calls @ [c]) nid = lastContact_step nid (lastContact calls nid) c"
  by (simp add: lastContact_def)

lemma reachable_run: "reachable tE (run tE calls)"
proof (induction calls rule: rev_induct)
  case Nil
  then show ?case by (simp add: run_def reach_new)
next
  case (snoc c calls)
  then show ?case by (cases c) (simp_all add: run_snoc reach_Upsert reach_Remove)
qed

lemma contacts_run: "contacts (run tE calls) nid = lastContact calls nid"
proof (induction calls rule: rev_induct)
  case Nil
  then show ?case by (simp add: run_def lastContact_def newStore_def)
next
  case (snoc c calls)
  then show ?case
    by (cases c) (simp_all add: run_snoc lastContact_snoc Upsert_def RemoveExpiredContacts_def Let_def)
qed

lemma entry_Upsert:
  "entry (Upsert now blobHash contact s) h nid =
     (if blobHash = h \<and> ID contact = nid then Some now else entry s h nid)"
  by (auto simp: entry_def Upsert_def Let_def split: option.splits)

lemma entry_Remove:
  "entry (RemoveExpiredContacts tE now outer inner s) h nid =
     (case entry s h nid of None \<Rightarrow> None
      | Some ts \<Rightarrow> if h \<in> set outer \<and> nid \<in> set (inner h) \<and> Since now ts > tE then None else Some ts)"
  by (auto simp: entry_def RemoveExpiredContacts_def hashes_lookup nodes_lookup split: option.splits)

lemma entry_run_Some:
  "entry (run tE calls) h nid = Some ts \<Longrightarrow> lastUpsert calls h nid = Some ts"
proof (induction calls arbitrary: ts rule: rev_induct)
  case Nil
  then show ?case by (simp add: run_def entry_def newStore_def)
next
  case (snoc c calls)
  then show ?case
    by (cases c) (auto simp: run_snoc lastUpsert_snoc entry_Upsert entry_Remove split: option.splits if_splits)
qed

lemma lastUpsert_run:
  "lastUpsert calls h nid = Some ts \<Longrightarrow>
     entry (run tE calls) h nid = Some ts \<or> (\<exists>c \<in> set calls. Since (call_time c) ts > tE)"
proof (induction calls arbitrary: ts rule: rev_induct)
  case Nil
  then show ?case by (simp add: lastUpsert_def)
next
  case (snoc c calls)
  show ?case
  proof (cases c)
    case (CallUpsert now blobHash contact)
    with snoc show ?thesis
      by (auto simp: run_snoc lastUpsert_snoc entry_Upsert split: if_splits)
  next
    case (CallRemoveExpiredContacts now outer inner)
    with snoc show ?thesis
      by (fastforce simp: run_snoc lastUpsert_snoc entry_Remove split: if_splits)
  qed
qed

lemma fresh_entry_run:
  assumes "\<forall>c \<in> set calls. call_time c \<le> now"
  shows "(entry (run tE calls) h nid = Some ts \<and> Since now ts < tE) \<longleftrightarrow>
         (lastUpsert calls h nid = Some ts \<and> Since now ts < tE)"
proof
  assume "entry (run tE calls) h nid = Some ts \<and> Since now ts < tE"
  then show "lastUpsert calls h nid = Some ts \<and> Since now ts < tE"
    by (auto dest: entry_run_Some)
next
  assume a: "lastUpsert calls h nid = Some ts \<and> Since now ts < tE"
  have "\<not> (\<exists>c \<in> set calls. Since (call_time c) ts > tE)"
  proof
    assume "\<exists>c \<in> set calls. Since (call_time c) ts > tE"
    then obtain c where c: "c \<in> set calls" "Since (call_time c) ts > tE" by blast
    with assms have "Since (call_time c) ts \<le> Since now ts" by (simp add: Since_mono)
    with c a show False by simp
  qed
  with a lastUpsert_run [of calls h nid ts tE] show "entry (run tE calls) h nid = Some ts \<and> Since now ts < tE"
    by blast
qed

lemma contacts_Remove [simp]:
  "contacts (RemoveExpiredContacts tE now outer inner s) = contacts s"
  by (simp add: RemoveExpiredContacts_def)

lemma contacts_Upsert:
  "contacts (Upsert now h c s) = (contacts s)(ID c \<mapsto> c)"
  by (simp add: Upsert_def Let_def)

lemma store_inv_new: "store_inv newStore"
  by (simp add: store_inv_def entry_def newStore_def)

lemma store_inv_Upsert: "store_inv s \<Longrightarrow> store_inv (Upsert now h c s)"
  unfolding store_inv_def by (auto simp: entry_Upsert contacts_Upsert split: if_splits)

lemma store_inv_Remove: "store_inv s \<Longrightarrow> store_inv (RemoveExpiredContacts tE now outer inner s)"
  unfolding store_inv_def by (auto simp: entry_Remove split: option.splits if_splits)

lemma reachable_inv: "reachable tE s \<Longrightarrow> store_inv s"
  by (induction rule: reachable.induct)
     (simp_all add: store_inv_new store_inv_Upsert store_inv_Remove)

lemma entry_Some_iff:
  "entry s h nid = Some ts \<longleftrightarrow> (\<exists>nodes. hashes s h = Some nodes \<and> nodes nid = Some ts)"
  by (simp add: entry_def split: option.splits)

lemma Get_Inr:
  assumes "store_inv s"
  shows "Get tE now order h s =
     Inr (case hashes s h of None \<Rightarrow> []
          | Some ids \<Rightarrow> map (\<lambda>nid. the (contacts s nid))
              (filter (\<lambda>nid. case ids nid of None \<Rightarrow> False | Some ts \<Rightarrow> Since now ts < tE) order))"
proof (cases "hashes s h")
  case None
  then show ?thesis by (simp add: Get_def)
next
  case (Some ids)
  have "\<And>nid ts. ids nid = Some ts \<Longrightarrow> contacts s nid \<noteq> None"
    using assms Some unfolding store_inv_def entry_Some_iff by blast
  from Get_range_Inr [of ids "contacts s", OF this] Some show ?thesis
    by (simp add: Get_def)
qed

lemma Get_set:
  assumes inv: "store_inv s" and h: "hashes s h = Some ids" and ord: "enumerates order ids"
  shows "\<exists>cs. Get tE now order h s = Inr cs \<and> distinct cs \<and>
     set cs = {c. \<exists>nid ts. ids nid = Some ts \<and> Since now ts < tE \<and> contacts s nid = Some c}"
proof -
  let ?fresh = "\<lambda>nid. case ids nid of None \<Rightarrow> False | Some ts \<Rightarrow> Since now ts < tE"
  let ?cs = "map (\<lambda>nid. the (contacts s nid)) (filter ?fresh order)"
  have some: "\<And>nid ts. ids nid = Some ts \<Longrightarrow> \<exists>c. contacts s nid = Some c \<and> ID c = nid"
    using inv h unfolding store_inv_def entry_Some_iff by blast
  have get: "Get tE now order h s = Inr ?cs"
    using Get_Inr [OF inv] h by simp
  have inj: "inj_on (\<lambda>nid. the (contacts s nid)) (set (filter ?fresh order))"
  proof (rule inj_onI)
    fix x y
    assume x: "x \<in> set (filter ?fresh order)" and y: "y \<in> set (filter ?fresh order)"
      and eq: "the (contacts s x) = the (contacts s y)"
    from x obtain tx where "ids x = Some tx" by (auto split: option.splits)
    from some [OF this] obtain cx where cx: "contacts s x = Some cx" "ID cx = x" by blast
    from y obtain ty where "ids y = Some ty" by (auto split: option.splits)
    from some [OF this] obtain cy where cy: "contacts s y = Some cy" "ID cy = y" by blast
    from eq cx cy show "x = y" by simp
  qed
  have dist: "distinct ?cs"
    using ord inj by (simp add: distinct_map enumerates_def)
  have "set ?cs = {c. \<exists>nid ts. ids nid = Some ts \<and> Since now ts < tE \<and> contacts s nid = Some c}"
  proof (intro set_eqI iffI)
    fix c assume "c \<in> set ?cs"
    then obtain nid where n: "nid \<in> set order" "?fresh nid" "c = the (contacts s nid)" by auto
    then obtain ts where ts: "ids nid = Some ts" "Since now ts < tE" by (auto split: option.splits)
    from some [OF ts(1)] n(3) have "contacts s nid = Some c" by auto
    with ts show "c \<in> {c. \<exists>nid ts. ids nid = Some ts \<and> Since now ts < tE \<and> contacts s nid = Some c}"
      by blast
  next
    fix c assume "c \<in> {c. \<exists>nid ts. ids nid = Some ts \<and> Since now ts < tE \<and> contacts s nid = Some c}"
    then obtain nid ts where n: "ids nid = Some ts" "Since now ts < tE" "contacts s nid = Some c"
      by blast
    then have "nid \<in> set order" using ord by (auto simp: enumerates_def)
    with n show "c \<in> set ?cs" by (force simp: image_iff)
  qed
  with get dist show ?thesis by blast
qed

subsection \<open>Tokens and rotation\<close>

declare digits10.simps [simp del]

lemma length_word_bytes [simp]: "length (word_bytes n w) = n"
  by (simp add: word_bytes_def)


lemma decimal_value_snoc: "decimal_value (ds @ [d]) = 10 * decimal_value ds + (unat d - 48)"
  by (simp add: decimal_value_def)

lemma unat_digit: "k < 10 \<Longrightarrow> unat (of_nat (48 + k) :: byte) = 48 + k"
  by (simp add: unat_of_nat del: of_nat_add)

lemma digits10_value: "decimal_value (digits10 n) = n"
proof (induction n rule: digits10.induct)
  case (1 n)
  show ?case
  proof (cases "n < 10")
    case True
    then show ?thesis
      by (subst digits10.simps) (simp add: decimal_value_def unat_digit del: of_nat_add)
  next
    case False
    have m: "n mod 10 < 10" by simp
    from False 1 have "decimal_value (digits10 (n div 10)) = n div 10" by simp
    with False show ?thesis
      by (subst digits10.simps) (simp add: decimal_value_snoc unat_digit [OF m] del: of_nat_add)
  qed
qed

lemma digits10_ascii: "d \<in> set (digits10 n) \<Longrightarrow> 48 \<le> unat d \<and> unat d \<le> 57"
proof (induction n rule: digits10.induct)
  case (1 n)
  show ?case
  proof (cases "n < 10")
    case True
    with 1(2) have "d = of_nat (48 + n)" by (subst (asm) digits10.simps) simp
    with True show ?thesis using unat_digit [of n] by simp
  next
    case False
    have m: "n mod 10 < 10" by simp
    from 1(2) False have "d \<in> set (digits10 (n div 10)) \<or> d = of_nat (48 + n mod 10)"
      by (subst (asm) digits10.simps) auto
    then show ?thesis
    proof
      assume "d \<in> set (digits10 (n div 10))"
      with 1(1) False show ?thesis by simp
    next
      assume "d = of_nat (48 + n mod 10)"
      then show ?thesis using unat_digit [OF m] by simp
    qed
  qed
qed


lemma genToken_Some:
  "genToken Sum256 sec nodeID (Some a) =
     Inr (word_bytes 32 (Sum256 (word_bytes 48 nodeID @ IP a @ Itoa (Port a) @ sec)))"
  by (simp add: genToken_def)

lemma Verify_Some:
  "Verify Sum256 tm token nodeID (Some a) =
     Inr (genToken Sum256 (secret tm) nodeID (Some a) = Inr token \<or>
          genToken Sum256 (prevSecret tm) nodeID (Some a) = Inr token)"
  by (auto simp: Verify_def genToken_Some)

lemma rotateSecret_Some:
  assumes "lock tm = Some m"
  shows "\<exists>tm'. rotateSecret tm (Some f) = Inr tm' \<and>
           secret tm' = map f [0..<length (secret tm)] \<and>
           prevSecret tm' = copy_bytes (prevSecret tm) (secret tm) \<and>
           lock tm' = lock tm"
  using assms by (simp add: rotateSecret_def Let_def split: option.splits)

lemma Start_tm0: "Start tm0 (Some rndA) = Inr tmA"
  by (simp add: Start_def tm0_def tmA_def rotateSecret_def copy_bytes_def Let_def)

lemma ticks_one:
  assumes "lock tm = Some m"
  shows "\<exists>tm1. ticks tm [Some f] = Inr tm1 \<and>
           secret tm1 = map f [0..<length (secret tm)] \<and>
           prevSecret tm1 = copy_bytes (prevSecret tm) (secret tm) \<and>
           lock tm1 = lock tm"
  using rotateSecret_Some [OF assms, of f] by auto


lemma copy_bytes_eq_iff: "copy_bytes dst src = src \<longleftrightarrow> length dst = length src"
proof
  assume "copy_bytes dst src = src"
  then have "length (copy_bytes dst src) = length src" by simp
  then show "length dst = length src"
    by (simp add: copy_bytes_def min_def split: if_splits)
next
  assume "length dst = length src"
  then show "copy_bytes dst src = src" by (simp add: copy_bytes_def)
qed













lemma token_dies_without_prevSecret:
  assumes "lock tm \<noteq> None" and "prevSecret tm = []"
    and "Get_tokenManager Sum256 tm nodeID (Some a) = Inr t"
    and "genToken Sum256 (map rnd [0..<length (secret tm)]) nodeID (Some a) \<noteq> Inr t"
    and "genToken Sum256 [] nodeID (Some a) \<noteq> Inr t"
  shows "\<exists>tm1. ticks tm [Some rnd] = Inr tm1 \<and> prevSecret tm1 = [] \<and>
           Verify Sum256 tm1 t nodeID (Some a) = Inr False"
proof -
  from assms(1) obtain m where m: "lock tm = Some m" by blast
  from ticks_one [OF m, of rnd] obtain tm1 where
    1: "ticks tm [Some rnd] = Inr tm1" "secret tm1 = map rnd [0..<length (secret tm)]"
       "prevSecret tm1 = copy_bytes (prevSecret tm) (secret tm)"
    by blast
  from 1(3) assms(2) have p: "prevSecret tm1 = []" by (simp add: copy_bytes_def)
  with 1(2) assms(4,5) have "Verify Sum256 tm1 t nodeID (Some a) = Inr False"
    by (simp add: Verify_Some)
  with 1(1) p show ?thesis by blast
qed

lemmas ev = Get_def Upsert_def newStore_def contactA_def contactA'_def contactB_def Since_def
  minDuration_def maxDuration_def run_def lastUpsert_def lastContact_def keys_in_order_def
  enumerates_def entry_def RemoveExpiredContacts_def CountStoredHashes_def

section \<open>The claims\<close>

text \<open>
  C3. In every store that a sequence of \<^verbatim>\<open>Upsert\<close>, \<^verbatim>\<open>Get\<close>,
  \<^verbatim>\<open>RemoveExpiredContacts\<close> and \<^verbatim>\<open>CountStoredHashes\<close> calls builds from
  \<^verbatim>\<open>newStore()\<close>, every contact id in the map of a hash has an entry in the map
  of contacts; so \<^verbatim>\<open>Get\<close> returns a slice and does not reach its panic, at any
  time, for any hash and in any order of iteration.
\<close>

theorem hashes_ids_have_contacts:
  assumes "reachable tExpire s"
  shows "(\<forall>h nodes nid. hashes s h = Some nodes \<longrightarrow> nid \<in> dom nodes \<longrightarrow> nid \<in> dom (contacts s)) \<and>
         (\<forall>now order h. \<exists>cs. Get tExpire now order h s = Inr cs)"
proof -
  have inv: "store_inv s" using assms by (rule reachable_inv)
  have "\<forall>h nodes nid. hashes s h = Some nodes \<longrightarrow> nid \<in> dom nodes \<longrightarrow> nid \<in> dom (contacts s)"
    using inv unfolding store_inv_def entry_Some_iff by blast
  moreover have "\<forall>now order h. \<exists>cs. Get tExpire now order h s = Inr cs"
    using Get_Inr [OF inv] by blast
  ultimately show ?thesis by blast
qed

theorem hashes_ids_have_contacts_witness:
  "reachable 10 (Upsert 5 1 contactA newStore) \<and>
   hashes (Upsert 5 1 contactA newStore) 1 = Some [2 \<mapsto> 5] \<and>
   2 \<in> dom (contacts (Upsert 5 1 contactA newStore)) \<and>
   Get 10 7 [2] 1 (Upsert 5 1 contactA newStore) = Inr [contactA]"
proof -
  have r: "reachable 10 (Upsert 5 1 contactA newStore)"
    by (intro reach_Upsert reach_new)
  have h: "hashes (Upsert 5 1 contactA newStore) 1 = Some [2 \<mapsto> 5]"
    by (simp add: Upsert_def newStore_def contactA_def)
  have d: "(2::Bitmap) \<in> dom [2 \<mapsto> (5::Time)]" by simp
  from hashes_ids_have_contacts [OF r] h d
  have c: "2 \<in> dom (contacts (Upsert 5 1 contactA newStore))" by blast
  have g: "Get 10 7 [2] 1 (Upsert 5 1 contactA newStore) = Inr [contactA]"
    by (simp add: Get_def Upsert_def newStore_def contactA_def Since_def
        minDuration_def maxDuration_def)
  from r h c g show ?thesis by blast
qed

text \<open>
  C4. After any history of calls, none later than the clock reading of the
  \<^verbatim>\<open>Get\<close>, \<^verbatim>\<open>Get\<close> of a hash returns exactly the contacts (each once, the
  latest upserted for its id) whose latest \<^verbatim>\<open>Upsert\<close> under that hash is less
  than \<^verbatim>\<open>tExpire\<close> old. \<^verbatim>\<open>Upsert\<close> stores its clock reading as the
  timestamp of the pair, so a \<^verbatim>\<open>Get\<close> that follows within \<^verbatim>\<open>tExpire\<close>
  returns the contact; an immediate one has age 0, which is below any positive
  \<^verbatim>\<open>tExpire\<close>. \<^verbatim>\<open>Get\<close> of a hash without entries returns the empty slice.
\<close>

theorem Get_returns_unexpired:
  "(list_all (\<lambda>c. call_time c \<le> now) calls \<and> keys_in_order order (run tExpire calls) h \<longrightarrow>
      (\<exists>cs. Get tExpire now order h (run tExpire calls) = Inr cs \<and> distinct cs \<and>
         set cs = {c. \<exists>nid ts. lastUpsert calls h nid = Some ts \<and> Since now ts < tExpire \<and>
                       lastContact calls nid = Some c})) \<and>
   entry (Upsert t h contact s) h (ID contact) = Some t \<and>
   (reachable tExpire s \<and> keys_in_order order (Upsert t h contact s) h \<and>
    Since now t < tExpire \<longrightarrow>
      (\<exists>cs. Get tExpire now order h (Upsert t h contact s) = Inr cs \<and> contact \<in> set cs)) \<and>
   ((\<forall>nid. entry s h nid = None) \<longrightarrow> Get tExpire now order h s = Inr [])"
proof (intro conjI impI)
  assume a: "list_all (\<lambda>c. call_time c \<le> now) calls \<and> keys_in_order order (run tExpire calls) h"
  let ?s = "run tExpire calls"
  have inv: "store_inv ?s" by (rule reachable_inv [OF reachable_run])
  have le: "\<forall>c \<in> set calls. call_time c \<le> now" using a by (simp add: list_all_iff)
  show "\<exists>cs. Get tExpire now order h ?s = Inr cs \<and> distinct cs \<and>
         set cs = {c. \<exists>nid ts. lastUpsert calls h nid = Some ts \<and> Since now ts < tExpire \<and>
                       lastContact calls nid = Some c}"
  proof (cases "hashes ?s h")
    case None
    then have "\<And>nid. entry ?s h nid = None" by (simp add: entry_def)
    with fresh_entry_run [OF le, of tExpire h]
    have "\<And>nid ts. \<not> (lastUpsert calls h nid = Some ts \<and> Since now ts < tExpire)" by simp
    then have "{c. \<exists>nid ts. lastUpsert calls h nid = Some ts \<and> Since now ts < tExpire \<and>
                       lastContact calls nid = Some c} = {}" by blast
    moreover have "Get tExpire now order h ?s = Inr []" using None by (simp add: Get_def)
    ultimately show ?thesis by simp
  next
    case (Some ids)
    with a have ord: "enumerates order ids" by (simp add: keys_in_order_def)
    have e: "\<And>nid ts. ids nid = Some ts \<longleftrightarrow> entry ?s h nid = Some ts"
      using Some by (simp add: entry_def)
    have "{c. \<exists>nid ts. ids nid = Some ts \<and> Since now ts < tExpire \<and> contacts ?s nid = Some c}
        = {c. \<exists>nid ts. lastUpsert calls h nid = Some ts \<and> Since now ts < tExpire \<and>
                       lastContact calls nid = Some c}"
      using fresh_entry_run [OF le, of tExpire h] unfolding e contacts_run by blast
    with Get_set [OF inv Some ord, of tExpire now] show ?thesis by simp
  qed
next
  show "entry (Upsert t h contact s) h (ID contact) = Some t"
    by (simp add: entry_Upsert)
next
  assume a: "reachable tExpire s \<and> keys_in_order order (Upsert t h contact s) h \<and>
    Since now t < tExpire"
  let ?s = "Upsert t h contact s"
  have inv: "store_inv ?s" using a by (auto intro: reachable_inv store_inv_Upsert)
  have "entry ?s h (ID contact) = Some t" by (simp add: entry_Upsert)
  then obtain ids where ids: "hashes ?s h = Some ids" "ids (ID contact) = Some t"
    unfolding entry_Some_iff by blast
  with a have ord: "enumerates order ids" by (simp add: keys_in_order_def)
  have c: "contacts ?s (ID contact) = Some contact" by (simp add: contacts_Upsert)
  from Get_set [OF inv ids(1) ord, of tExpire now] obtain cs where
    cs: "Get tExpire now order h ?s = Inr cs"
        "set cs = {c. \<exists>nid ts. ids nid = Some ts \<and> Since now ts < tExpire \<and> contacts ?s nid = Some c}"
    by blast
  have "Since now t < tExpire" using a by simp
  with ids(2) c cs(2) have "contact \<in> set cs" by blast
  with cs(1) show "\<exists>cs. Get tExpire now order h ?s = Inr cs \<and> contact \<in> set cs" by blast
next
  assume a: "\<forall>nid. entry s h nid = None"
  show "Get tExpire now order h s = Inr []"
  proof (cases "hashes s h")
    case None
    then show ?thesis by (simp add: Get_def)
  next
    case (Some ids)
    with a have "ids = Map.empty" by (auto simp: entry_def)
    moreover have "\<And>acc. Get_range tExpire now Map.empty (contacts s) order acc = Inr acc"
      by (induction order) simp_all
    ultimately show ?thesis using Some by (simp add: Get_def)
  qed
qed

theorem Get_returns_unexpired_witness:
  "list_all (\<lambda>c. call_time c \<le> 7) [CallUpsert 5 1 contactA] \<and>
   keys_in_order [2] (run 10 [CallUpsert 5 1 contactA]) 1 \<and>
   (\<exists>cs. Get 10 7 [2] 1 (run 10 [CallUpsert 5 1 contactA]) = Inr cs \<and> distinct cs \<and>
      set cs = {c. \<exists>nid ts. lastUpsert [CallUpsert 5 1 contactA] 1 nid = Some ts \<and>
                     Since 7 ts < 10 \<and> lastContact [CallUpsert 5 1 contactA] nid = Some c}) \<and>
   Get 10 7 [2] 1 (run 10 [CallUpsert 5 1 contactA]) = Inr [contactA] \<and>
   entry (Upsert 5 1 contactA newStore) 1 (ID contactA) = Some 5 \<and>
   reachable 10 newStore \<and>
   keys_in_order [2] (Upsert 5 1 contactA newStore) 1 \<and>
   Since 7 5 < 10 \<and>
   (\<exists>cs. Get 10 7 [2] 1 (Upsert 5 1 contactA newStore) = Inr cs \<and> contactA \<in> set cs) \<and>
   (\<forall>nid. entry newStore 1 nid = None) \<and>
   Get 10 7 [2] 1 newStore = Inr []"
proof -
  have h1: "list_all (\<lambda>c. call_time c \<le> 7) [CallUpsert 5 1 contactA]" by simp
  have h2: "keys_in_order [2] (run 10 [CallUpsert 5 1 contactA]) 1" by (simp add: ev)
  have h3: "reachable 10 newStore" by (rule reach_new)
  have h4: "keys_in_order [2] (Upsert 5 1 contactA newStore) 1" by (simp add: ev)
  have h5: "Since 7 5 < 10" by (simp add: ev)
  have h6: "\<forall>nid. entry newStore 1 nid = None" by (simp add: ev)
  have g: "Get 10 7 [2] 1 (run 10 [CallUpsert 5 1 contactA]) = Inr [contactA]" by (simp add: ev)
  from Get_returns_unexpired [where now = 7 and calls = "[CallUpsert 5 1 contactA]" and order = "[2]"
      and tExpire = 10 and h = 1 and contact = contactA and s = newStore and t = 5]
    h1 h2 h3 h4 h5 h6 g
  show ?thesis by simp
qed

text \<open>
  C5. When the orders of iteration enumerate the keys, \<^verbatim>\<open>RemoveExpiredContacts\<close>
  deletes the timestamp of a hash and contact id exactly when its age is greater than
  \<^verbatim>\<open>tExpire\<close>, and leaves every other timestamp as it was.
\<close>

theorem RemoveExpiredContacts_deletes_expired:
  "enumerates outer (hashes s) \<and>
   (\<forall>h nodes. hashes s h = Some nodes \<longrightarrow> enumerates (inner h) nodes) \<longrightarrow>
     entry (RemoveExpiredContacts tExpire now outer inner s) h nid =
       (case entry s h nid of
          None \<Rightarrow> None
        | Some ts \<Rightarrow> if Since now ts > tExpire then None else Some ts)"
proof
  assume a: "enumerates outer (hashes s) \<and>
   (\<forall>h nodes. hashes s h = Some nodes \<longrightarrow> enumerates (inner h) nodes)"
  show "entry (RemoveExpiredContacts tExpire now outer inner s) h nid =
       (case entry s h nid of
          None \<Rightarrow> None
        | Some ts \<Rightarrow> if Since now ts > tExpire then None else Some ts)"
  proof (cases "entry s h nid")
    case None
    then show ?thesis by (simp add: entry_Remove)
  next
    case (Some ts)
    then obtain nodes where n: "hashes s h = Some nodes" "nodes nid = Some ts"
      unfolding entry_Some_iff by blast
    with a have "h \<in> set outer" "nid \<in> set (inner h)"
      by (auto simp: enumerates_def)
    with Some show ?thesis by (simp add: entry_Remove)
  qed
qed

theorem RemoveExpiredContacts_deletes_expired_witness:
  "enumerates [1] (hashes (Upsert 100 1 contactB (Upsert 5 1 contactA newStore))) \<and>
   hashes (Upsert 100 1 contactB (Upsert 5 1 contactA newStore)) 1 = Some [2 \<mapsto> 5, 3 \<mapsto> 100] \<and>
   enumerates [2, 3] [(2::Bitmap) \<mapsto> (5::Time), 3 \<mapsto> 100] \<and>
   entry (Upsert 100 1 contactB (Upsert 5 1 contactA newStore)) 1 2 = Some 5 \<and>
   entry (Upsert 100 1 contactB (Upsert 5 1 contactA newStore)) 1 3 = Some 100 \<and>
   entry (RemoveExpiredContacts 10 105 [1] (\<lambda>h. [2, 3])
            (Upsert 100 1 contactB (Upsert 5 1 contactA newStore))) 1 2 = None \<and>
   entry (RemoveExpiredContacts 10 105 [1] (\<lambda>h. [2, 3])
            (Upsert 100 1 contactB (Upsert 5 1 contactA newStore))) 1 3 = Some 100"
proof -
  let ?s = "Upsert 100 1 contactB (Upsert 5 1 contactA newStore)"
  have h1: "enumerates [1] (hashes ?s)" by (simp add: ev)
  have h2: "hashes ?s 1 = Some [2 \<mapsto> 5, 3 \<mapsto> 100]" by (simp add: ev)
  have h3: "enumerates [2, 3] [(2::Bitmap) \<mapsto> (5::Time), 3 \<mapsto> 100]" by (auto simp: ev)
  have h4: "\<forall>h nodes. hashes ?s h = Some nodes \<longrightarrow> enumerates ((\<lambda>h. [2, 3]) h) nodes"
    using h3 by (simp add: Upsert_def newStore_def contactA_def contactB_def)
  have e2: "entry ?s 1 2 = Some 5" by (simp add: ev)
  have e3: "entry ?s 1 3 = Some 100" by (simp add: ev)
  have s2: "Since 105 5 > (10::int)" and s3: "\<not> Since 105 100 > (10::int)" by (simp_all add: ev)
  from RemoveExpiredContacts_deletes_expired [where outer = "[1]" and s = ?s and inner = "\<lambda>h. [2, 3]"
      and tExpire = 10 and now = 105 and h = 1 and nid = 2] h1 h4 e2 s2
  have r2: "entry (RemoveExpiredContacts 10 105 [1] (\<lambda>h. [2, 3]) ?s) 1 2 = None" by simp
  from RemoveExpiredContacts_deletes_expired [where outer = "[1]" and s = ?s and inner = "\<lambda>h. [2, 3]"
      and tExpire = 10 and now = 105 and h = 1 and nid = 3] h1 h4 e3 s3
  have r3: "entry (RemoveExpiredContacts 10 105 [1] (\<lambda>h. [2, 3]) ?s) 1 3 = Some 100" by simp
  from h1 h2 h3 e2 e3 r2 r3 show ?thesis by blast
qed

text \<open>
  C9. \<^verbatim>\<open>RemoveExpiredContacts\<close> leaves the map of contacts as it was and removes
  no hash from the map of hashes: a hash whose timestamps are all deleted keeps an empty
  inner map, and \<^verbatim>\<open>CountStoredHashes\<close> returns what it returned before.
\<close>

theorem RemoveExpiredContacts_keeps_contacts_and_hashes:
  "contacts (RemoveExpiredContacts tExpire now outer inner s) = contacts s \<and>
   dom (hashes (RemoveExpiredContacts tExpire now outer inner s)) = dom (hashes s) \<and>
   CountStoredHashes (RemoveExpiredContacts tExpire now outer inner s) = CountStoredHashes s \<and>
   (hashes s h \<noteq> None \<and> (\<forall>nid. entry (RemoveExpiredContacts tExpire now outer inner s) h nid = None)
      \<longrightarrow> hashes (RemoveExpiredContacts tExpire now outer inner s) h = Some Map.empty)"
proof -
  have d: "dom (hashes (RemoveExpiredContacts tExpire now outer inner s)) = dom (hashes s)"
    by (simp add: RemoveExpiredContacts_def dom_RemoveExpiredContacts_hashes)
  have e: "hashes s h \<noteq> None \<and> (\<forall>nid. entry (RemoveExpiredContacts tExpire now outer inner s) h nid = None)
      \<longrightarrow> hashes (RemoveExpiredContacts tExpire now outer inner s) h = Some Map.empty"
  proof
    assume a: "hashes s h \<noteq> None \<and> (\<forall>nid. entry (RemoveExpiredContacts tExpire now outer inner s) h nid = None)"
    then have "h \<in> dom (hashes (RemoveExpiredContacts tExpire now outer inner s))"
      using d by blast
    then obtain nodes where n: "hashes (RemoveExpiredContacts tExpire now outer inner s) h = Some nodes"
      by blast
    with a have "nodes = Map.empty" by (auto simp: entry_def)
    with n show "hashes (RemoveExpiredContacts tExpire now outer inner s) h = Some Map.empty" by simp
  qed
  from d e show ?thesis by (simp add: CountStoredHashes_def)
qed

theorem RemoveExpiredContacts_keeps_contacts_and_hashes_witness:
  "hashes (Upsert 5 1 contactA newStore) 1 \<noteq> None \<and>
   (\<forall>nid. entry (RemoveExpiredContacts 10 105 [1] (\<lambda>h. [2]) (Upsert 5 1 contactA newStore)) 1 nid = None) \<and>
   hashes (RemoveExpiredContacts 10 105 [1] (\<lambda>h. [2]) (Upsert 5 1 contactA newStore)) 1 = Some Map.empty \<and>
   contacts (RemoveExpiredContacts 10 105 [1] (\<lambda>h. [2]) (Upsert 5 1 contactA newStore)) 2 = Some contactA \<and>
   CountStoredHashes (RemoveExpiredContacts 10 105 [1] (\<lambda>h. [2]) (Upsert 5 1 contactA newStore)) = 1"
proof -
  let ?s = "Upsert 5 1 contactA newStore"
  let ?r = "RemoveExpiredContacts 10 105 [1] (\<lambda>h. [2]) ?s"
  have h1: "hashes ?s 1 \<noteq> None" by (simp add: ev)
  have h2: "\<forall>nid. entry ?r 1 nid = None" by (simp add: ev)
  have c: "contacts ?s 2 = Some contactA" by (simp add: ev)
  have n: "CountStoredHashes ?s = 1" by (simp add: ev)
  from RemoveExpiredContacts_keeps_contacts_and_hashes [where tExpire = 10 and now = 105
      and outer = "[1]" and inner = "\<lambda>h. [2]" and s = ?s and h = 1] h1 h2 c n
  show ?thesis by simp
qed

text \<open>
  C10. The store keeps one contact per contact id, whatever the hash: after
  \<^verbatim>\<open>Upsert(h1, c)\<close> and then \<^verbatim>\<open>Upsert(h2, c')\<close> with the id of \<open>c\<close>, a
  \<^verbatim>\<open>Get(h1)\<close> made while the entry is fresh returns \<open>c'\<close>, and does not return
  \<open>c\<close> when the two differ.
\<close>

theorem Upsert_shares_contact_across_hashes:
  "reachable tExpire s \<and> ID c' = ID c \<and>
   keys_in_order order (Upsert t2 h2 c' (Upsert t1 h1 c s)) h1 \<and>
   t1 \<le> t2 \<and> Since now t1 < tExpire \<longrightarrow>
     contacts (Upsert t2 h2 c' (Upsert t1 h1 c s)) (ID c) = Some c' \<and>
     (\<exists>cs. Get tExpire now order h1 (Upsert t2 h2 c' (Upsert t1 h1 c s)) = Inr cs \<and>
        c' \<in> set cs \<and> (c \<noteq> c' \<longrightarrow> c \<notin> set cs))"
proof
  let ?s = "Upsert t2 h2 c' (Upsert t1 h1 c s)"
  assume a: "reachable tExpire s \<and> ID c' = ID c \<and> keys_in_order order ?s h1 \<and>
   t1 \<le> t2 \<and> Since now t1 < tExpire"
  have inv: "store_inv ?s"
    using a by (auto intro: reachable_inv store_inv_Upsert)
  have c: "contacts ?s (ID c) = Some c'" using a by (simp add: contacts_Upsert)
  define ts where "ts = (if h2 = h1 then t2 else t1)"
  have e: "entry ?s h1 (ID c) = Some ts" using a by (simp add: entry_Upsert ts_def)
  have "Since now ts \<le> Since now t1" using a by (simp add: ts_def Since_antimono)
  with a have f: "Since now ts < tExpire" by simp
  from e obtain ids where ids: "hashes ?s h1 = Some ids" "ids (ID c) = Some ts"
    unfolding entry_Some_iff by blast
  with a have ord: "enumerates order ids" by (simp add: keys_in_order_def)
  from Get_set [OF inv ids(1) ord, of tExpire now] obtain cs where
    cs: "Get tExpire now order h1 ?s = Inr cs"
        "set cs = {x. \<exists>nid ts. ids nid = Some ts \<and> Since now ts < tExpire \<and> contacts ?s nid = Some x}"
    by blast
  from ids(2) f c cs(2) have in': "c' \<in> set cs" by blast
  have "c \<noteq> c' \<longrightarrow> c \<notin> set cs"
  proof (intro impI notI)
    assume ne: "c \<noteq> c'" and "c \<in> set cs"
    with cs(2) obtain nid where "contacts ?s nid = Some c" by blast
    moreover from this inv have "ID c = nid" unfolding store_inv_def by blast
    ultimately show False using c ne by simp
  qed
  with c cs(1) in' show "contacts ?s (ID c) = Some c' \<and>
     (\<exists>cs. Get tExpire now order h1 ?s = Inr cs \<and> c' \<in> set cs \<and> (c \<noteq> c' \<longrightarrow> c \<notin> set cs))"
    by blast
qed

theorem Upsert_shares_contact_across_hashes_witness:
  "reachable 10 newStore \<and> ID contactA' = ID contactA \<and>
   keys_in_order [2] (Upsert 6 4 contactA' (Upsert 5 1 contactA newStore)) 1 \<and>
   (5::Time) \<le> 6 \<and> Since 7 5 < 10 \<and> contactA \<noteq> contactA' \<and>
   contacts (Upsert 6 4 contactA' (Upsert 5 1 contactA newStore)) (ID contactA) = Some contactA' \<and>
   Get 10 7 [2] 1 (Upsert 6 4 contactA' (Upsert 5 1 contactA newStore)) = Inr [contactA'] \<and>
   (\<exists>cs. Get 10 7 [2] 1 (Upsert 6 4 contactA' (Upsert 5 1 contactA newStore)) = Inr cs \<and>
      contactA' \<in> set cs \<and> contactA \<notin> set cs)"
proof -
  let ?s = "Upsert 6 4 contactA' (Upsert 5 1 contactA newStore)"
  have h1: "reachable 10 newStore" by (rule reach_new)
  have h2: "ID contactA' = ID contactA" by (simp add: ev)
  have h3: "keys_in_order [2] ?s 1" by (simp add: ev)
  have h4: "(5::Time) \<le> 6" by simp
  have h5: "Since 7 5 < 10" by (simp add: ev)
  have h6: "contactA \<noteq> contactA'" by (simp add: ev)
  have g: "Get 10 7 [2] 1 ?s = Inr [contactA']" by (simp add: ev)
  from Upsert_shares_contact_across_hashes [where tExpire = 10 and s = newStore and c' = contactA'
      and c = contactA and order = "[2]" and ?t2.0 = 6 and ?h2.0 = 4 and ?t1.0 = 5 and ?h1.0 = 1
      and now = 7]
    h1 h2 h3 h4 h5 h6 g
  show ?thesis by simp
qed

text \<open>
  C6. The methods of the store that change its maps are to take the lock as writers.
  \<^verbatim>\<open>Upsert\<close> does; \<^verbatim>\<open>RemoveExpiredContacts\<close> takes it as a reader: while a
  \<^verbatim>\<open>Get\<close> holds the lock, \<^verbatim>\<open>RemoveExpiredContacts\<close> is admitted (and
  \<^verbatim>\<open>Upsert\<close> is not), and it deletes an entry of the map that the reader ranges
  over.
\<close>

theorem RemoveExpiredContacts_takes_read_lock:
  "acquire MGet \<lparr>readers = 0, writer = False\<rparr> = Some \<lparr>readers = 1, writer = False\<rparr> \<and>
   acquire MRemoveExpiredContacts \<lparr>readers = 1, writer = False\<rparr>
     = Some \<lparr>readers = 2, writer = False\<rparr> \<and>
   acquire MUpsert \<lparr>readers = 1, writer = False\<rparr> = None \<and>
   entry (Upsert 5 1 contactA newStore) 1 2 = Some 5 \<and>
   entry (RemoveExpiredContacts 10 105 [1] (\<lambda>h. [2]) (Upsert 5 1 contactA newStore)) 1 2 = None"
  by (simp add: RLock_def Lock_def ev)

text \<open>
  C7. For every token, node id and address, \<^verbatim>\<open>Verify\<close> returns true exactly when
  the token is what \<^verbatim>\<open>genToken\<close> derives for the id and address from the current
  secret or from the previous one.
\<close>

theorem Verify_accepts_either_secret:
  "Verify Sum256 tm token nodeID (Some addr) =
     Inr (genToken Sum256 (secret tm) nodeID (Some addr) = Inr token \<or>
          genToken Sum256 (prevSecret tm) nodeID (Some addr) = Inr token)"
  by (rule Verify_Some)

text \<open>
  C8. For every node id and address, \<^verbatim>\<open>Get\<close> of the token manager returns the
  32 bytes of the hash of the 48 bytes of the id, the bytes of the IP, the port in decimal
  ASCII and the current secret, in this order. The decimal string of a number that is not
  negative reads back as the number.
\<close>

theorem Get_is_SHA256_of_current_secret:
  "Get_tokenManager Sum256 tm nodeID (Some addr) =
     Inr (word_bytes 32 (Sum256 (word_bytes 48 nodeID @ IP addr @ Itoa (Port addr) @ secret tm))) \<and>
   length (word_bytes 32 (Sum256 (word_bytes 48 nodeID @ IP addr @ Itoa (Port addr) @ secret tm))) = 32 \<and>
   length (word_bytes 48 nodeID) = 48 \<and>
   decimal_value (Itoa (int n)) = n"
  by (simp add: Get_tokenManager_def genToken_Some Itoa_def digits10_value)

text \<open>
  C2. The claim is that \<^verbatim>\<open>Start\<close>, on a manager whose secret is not yet 64 bytes
  long, leaves both secrets random and neither all zero. On the zero value of the manager,
  with the random source delivering, the previous secret after \<^verbatim>\<open>Start\<close> is 64
  zero bytes.
\<close>

theorem Start_leaves_prevSecret_zero:
  "map_sum (\<lambda>p. p) prevSecret (Start tm0 (Some rndA)) = Inr (replicate 64 0)"
  by (simp add: Start_def tm0_def rotateSecret_def copy_bytes_def Let_def)

text \<open>
  C2, as the code has it: on a manager whose secret is not 64 bytes long,
  \<^verbatim>\<open>Start\<close> makes both slices 64 bytes long, fills the current secret with the 64
  bytes the random source delivers and leaves the previous secret all zero (the copy of
  the fresh current slice, taken before it is filled); it sets the lock.
\<close>

theorem Start_seeds_current_secret:
  "length (secret tm) \<noteq> 64 \<longrightarrow>
     (\<exists>tm'. Start tm (Some rnd) = Inr tm' \<and>
        secret tm' = map rnd [0..<64] \<and> prevSecret tm' = replicate 64 0 \<and>
        length (secret tm') = 64 \<and> length (prevSecret tm') = 64 \<and> lock tm' \<noteq> None)"
  by (simp add: Start_def rotateSecret_def copy_bytes_def Let_def split: option.splits)

theorem Start_seeds_current_secret_witness:
  "length (secret tm0) \<noteq> 64 \<and>
   (\<exists>tm'. Start tm0 (Some rndA) = Inr tm' \<and>
        secret tm' = map rndA [0..<64] \<and> prevSecret tm' = replicate 64 0 \<and>
        length (secret tm') = 64 \<and> length (prevSecret tm') = 64 \<and> lock tm' \<noteq> None)"
proof -
  have h: "length (secret tm0) \<noteq> 64" by (simp add: tm0_def)
  from Start_seeds_current_secret [where tm = tm0 and rnd = rndA] h show ?thesis by blast
qed




end
